theory Spec2Isabelle
  imports Main "HOL-Library.Word"
begin

section \<open>The hotword component of \<open>hotword_pocketsphinx.py\<close>\<close>

text \<open>
  The component consists of one function, \<open>async_setup\<close>, whose body creates three closure
  variables (\<open>detected_event\<close>, \<open>detected_phrase\<close>, \<open>terminated\<close>) and three nested
  functions: the coroutine \<open>async_listen\<close> (the service handler), the thread body \<open>listen\<close>
  that \<open>async_listen\<close> starts, and the coroutine \<open>async_terminate\<close> (the handler of the stop
  event of the host).

  The embedding is an interleaving semantics. Coroutines run on the single event loop of the
  host, one at a time, and give it up only at \<open>yield from\<close>; every invocation of
  \<open>async_listen\<close> starts its own thread, which advances one call to a collaborator (audio
  device, decoder, event object) at a time, and the executor runs \<open>detected_event.wait\<close>
  for it in a thread of its own. The part of \<open>async_listen\<close> before the \<open>yield from\<close> is one
  step: a thread that runs between its statements reads \<open>terminated\<close> or sets the event, and a
  read sees the value it would see after the step, while a set that falls before \<open>clear\<close> is
  undone by it like a set before the step.

  The audio device, the decoder, the state machine and the bus of the host are libraries
  outside this file: every call to them is recorded in a trace, their results (the value of
  \<open>readinto\<close>, the hypothesis of \<open>hyp\<close>) are inputs of the step that makes the call, and
  they are taken to return normally.
\<close>

subsection \<open>Constants of the module\<close>

type_synonym byte = "8 word"

text \<open>A Python dict literal with string keys and values, in the order it is written.\<close>
type_synonym attrs = "(string \<times> string) list"

definition DOMAIN :: string where
  "DOMAIN = ''hotword_pocketsphinx''"

definition OBJECT_DECODER :: string where
  "OBJECT_DECODER = DOMAIN @ ''.decoder''"

definition STATE_IDLE :: string where
  "STATE_IDLE = ''idle''"

definition STATE_LISTENING :: string where
  "STATE_LISTENING = ''listening''"

definition EVENT_HOTWORD_DETECTED :: string where
  "EVENT_HOTWORD_DETECTED = ''hotword_detected''"

definition state_attrs :: attrs where
  "state_attrs = [(''friendly_name'', ''Hotword''), (''icon'', ''mdi:microphone'')]"

text \<open>
  The configuration values that \<open>async_setup\<close> reads and the nested functions use. The other
  entries (acoustic model, dictionary, threshold, audio device, sample rate) are only handed to
  the constructors of the decoder and of the audio device.
\<close>
record config =
  name :: string
  hotword :: string
  buffer_size :: int

subsection \<open>Calls to the collaborators\<close>

text \<open>Who makes a call: the setup code, the coroutine or the thread of the \<open>n\<close>-th
  invocation of \<open>async_listen\<close>, or \<open>async_terminate\<close>.\<close>
datatype caller = Setup | Coroutine nat | Worker nat | Shutdown

datatype action =
    StateSet caller string string attrs    \<comment> \<open>\<open>hass.states.async_set(entity, state, attrs)\<close>\<close>
  | BusFire caller string attrs            \<comment> \<open>\<open>hass.bus.async_fire(event_type, data)\<close>\<close>
  | EventClear caller                      \<comment> \<open>\<open>detected_event.clear()\<close>\<close>
  | EventSet caller                        \<comment> \<open>\<open>detected_event.set()\<close>\<close>
  | AdEnter nat                            \<comment> \<open>\<open>with audio_device:\<close> entered\<close>
  | AdReadinto nat int                     \<comment> \<open>\<open>audio_device.readinto(buf)\<close> and its value\<close>
  | AdExit nat                             \<comment> \<open>\<open>with audio_device:\<close> left\<close>
  | StartUttEnter nat                      \<comment> \<open>\<open>with decoder.start_utterance():\<close> entered\<close>
  | StartUttExit nat                       \<comment> \<open>\<open>with decoder.start_utterance():\<close> left\<close>
  | ProcessRaw nat "byte list"             \<comment> \<open>\<open>decoder.process_raw(buf, False, False)\<close>\<close>
  | Hyp nat "string option"                \<comment> \<open>\<open>decoder.hyp()\<close> and the \<open>hypstr\<close> of its value\<close>
  | EndUttEnter nat                        \<comment> \<open>\<open>with decoder.end_utterance():\<close> entered\<close>
  | EndUttExit nat                         \<comment> \<open>\<open>with decoder.end_utterance():\<close> left\<close>

subsection \<open>One invocation of \<open>async_listen\<close>\<close>

text \<open>Control points of the thread body \<open>listen\<close>; each is the next call it makes.\<close>
datatype wpc =
    W_Start          \<comment> \<open>\<open>buf = bytearray(buffer_size)\<close>\<close>
  | W_WithAd         \<comment> \<open>\<open>with audio_device:\<close>\<close>
  | W_WithUtt        \<comment> \<open>\<open>with decoder.start_utterance():\<close>\<close>
  | W_LoopTop        \<comment> \<open>\<open>while not terminated\<close>\<close>
  | W_Readinto       \<comment> \<open>\<open>and audio_device.readinto(buf) >= 0:\<close>\<close>
  | W_ProcessRaw     \<comment> \<open>\<open>decoder.process_raw(buf, False, False)\<close>\<close>
  | W_Hyp            \<comment> \<open>\<open>hyp = decoder.hyp(); if hyp:\<close>\<close>
  | W_EndUttEnter    \<comment> \<open>\<open>with decoder.end_utterance(): detected_phrase = hyp.hypstr\<close>\<close>
  | W_EndUttExit     \<comment> \<open>\<open>if detected_phrase == hotword: break\<close>, leaving the inner \<open>with\<close>\<close>
  | W_ExitUtt        \<comment> \<open>leaving \<open>with decoder.start_utterance()\<close>\<close>
  | W_ExitAd         \<comment> \<open>leaving \<open>with audio_device\<close>\<close>
  | W_SetEvent       \<comment> \<open>\<open>detected_event.set()\<close>\<close>
  | W_Done           \<comment> \<open>the thread has returned\<close>
  | W_Raised         \<comment> \<open>the thread has died with an exception\<close>

text \<open>Which of the three exits of the \<open>while\<close> loop was taken (a history variable).\<close>
datatype loop_exit = ByTermination | ByReadError | ByMatch

text \<open>
  Control points of the coroutine \<open>async_listen\<close> after it has started the thread. It is
  suspended in \<open>run_in_executor(None, detected_event.wait)\<close>: the call of \<open>wait\<close> is
  submitted to the executor, then blocked in \<open>wait\<close>, then returned. After that the coroutine
  is resumed on the event loop, tests \<open>terminated\<close>, and either returns or blocks the event
  loop in \<open>thread.join()\<close>.
\<close>
datatype cpc = C_Submitted | C_Waiting | C_Woken | C_Join | C_Done

text \<open>
  The variables of one invocation. \<open>buf\<close>, \<open>hyp\<close> and \<open>w_detected_phrase\<close> are the local
  variables \<open>buf\<close>, \<open>hyp\<close> and \<open>detected_phrase\<close> of \<open>listen\<close>: \<open>listen\<close> assigns
  \<open>detected_phrase\<close> and has no \<open>nonlocal\<close> declaration, so the name is bound in \<open>listen\<close>
  itself and is not the closure variable that \<open>async_listen\<close> resets.
\<close>
record session =
  c_pc :: cpc
  w_pc :: wpc
  buf :: "byte list"
  hyp :: "string option"
  w_detected_phrase :: "string option"
  w_exit :: "loop_exit option"

definition new_session :: session where
  "new_session = \<lparr>c_pc = C_Submitted, w_pc = W_Start, buf = [], hyp = None,
                   w_detected_phrase = None, w_exit = None\<rparr>"

text \<open>What a step of a thread receives from the device or the decoder.\<close>
datatype input = NoInput | Frame int "byte list" | Hypothesis "string option"

text \<open>
  \<open>audio_device.readinto(buf)\<close> writes into the bytearray it is given; the bytearray keeps
  its length.
\<close>
definition readinto :: "byte list \<Rightarrow> byte list \<Rightarrow> byte list" where
  "readinto b d = take (length b) d @ drop (length d) b"

text \<open>
  One step of the thread body \<open>listen\<close> of invocation \<open>i\<close>: the new local state and the calls
  made. \<open>t\<close> is the value of the closure variable \<open>terminated\<close> at this moment. \<open>None\<close>: the
  thread cannot take a step (it has ended, or the input is not the kind it waits for).
\<close>
definition listen :: "config \<Rightarrow> bool \<Rightarrow> nat \<Rightarrow> input \<Rightarrow> session \<Rightarrow> (session \<times> action list) option" where
  "listen cfg t i inp w =
    (case w_pc w of
       W_Start \<Rightarrow>
         if buffer_size cfg < 0 then Some (w\<lparr>w_pc := W_Raised\<rparr>, [])
         else Some (w\<lparr>w_pc := W_WithAd, buf := replicate (nat (buffer_size cfg)) 0\<rparr>, [])
     | W_WithAd \<Rightarrow> Some (w\<lparr>w_pc := W_WithUtt\<rparr>, [AdEnter i])
     | W_WithUtt \<Rightarrow> Some (w\<lparr>w_pc := W_LoopTop\<rparr>, [StartUttEnter i])
     | W_LoopTop \<Rightarrow>
         if \<not> t then Some (w\<lparr>w_pc := W_Readinto\<rparr>, [])
         else Some (w\<lparr>w_pc := W_ExitUtt, w_exit := Some ByTermination\<rparr>, [])
     | W_Readinto \<Rightarrow>
         (case inp of
            Frame r d \<Rightarrow>
              if r \<ge> 0 then Some (w\<lparr>w_pc := W_ProcessRaw, buf := readinto (buf w) d\<rparr>, [AdReadinto i r])
              else Some (w\<lparr>w_pc := W_ExitUtt, buf := readinto (buf w) d,
                           w_exit := Some ByReadError\<rparr>, [AdReadinto i r])
          | _ \<Rightarrow> None)
     | W_ProcessRaw \<Rightarrow> Some (w\<lparr>w_pc := W_Hyp\<rparr>, [ProcessRaw i (buf w)])
     | W_Hyp \<Rightarrow>
         (case inp of
            Hypothesis h \<Rightarrow>
              if h \<noteq> None then Some (w\<lparr>w_pc := W_EndUttEnter, hyp := h\<rparr>, [Hyp i h])
              else Some (w\<lparr>w_pc := W_LoopTop, hyp := h\<rparr>, [Hyp i h])
          | _ \<Rightarrow> None)
     | W_EndUttEnter \<Rightarrow>
         Some (w\<lparr>w_pc := W_EndUttExit, w_detected_phrase := hyp w\<rparr>, [EndUttEnter i])
     | W_EndUttExit \<Rightarrow>
         if w_detected_phrase w = Some (hotword cfg)
         then Some (w\<lparr>w_pc := W_ExitUtt, w_exit := Some ByMatch\<rparr>, [EndUttExit i])
         else Some (w\<lparr>w_pc := W_LoopTop\<rparr>, [EndUttExit i])
     | W_ExitUtt \<Rightarrow> Some (w\<lparr>w_pc := W_ExitAd\<rparr>, [StartUttExit i])
     | W_ExitAd \<Rightarrow> Some (w\<lparr>w_pc := W_SetEvent\<rparr>, [AdExit i])
     | W_SetEvent \<Rightarrow> Some (w\<lparr>w_pc := W_Done\<rparr>, [])
     | W_Done \<Rightarrow> None
     | W_Raised \<Rightarrow> None)"

subsection \<open>The closure of \<open>async_setup\<close> and the host\<close>

record sys =
  terminated :: bool                                  \<comment> \<open>closure variable\<close>
  detected_phrase :: "string option"                  \<comment> \<open>closure variable\<close>
  detected_event :: bool                              \<comment> \<open>the flag of the \<open>threading.Event\<close>\<close>
  hass_states :: "string \<rightharpoonup> string \<times> attrs"          \<comment> \<open>\<open>hass.states\<close>\<close>
  trace :: "action list"                              \<comment> \<open>all calls so far, oldest first\<close>
  sessions :: "session list"                          \<comment> \<open>the invocations of \<open>async_listen\<close>\<close>

text \<open>\<open>async_setup\<close> up to \<open>return True\<close>: the closure variables and the first publication.\<close>
definition async_setup :: sys where
  "async_setup =
     \<lparr>terminated = False, detected_phrase = None, detected_event = False,
      hass_states = [OBJECT_DECODER \<mapsto> (STATE_IDLE, state_attrs)],
      trace = [StateSet Setup OBJECT_DECODER STATE_IDLE state_attrs],
      sessions = []\<rparr>"

text \<open>
  \<open>threading.Event.set\<close>: the flag becomes true and every thread blocked in \<open>wait\<close> returns
  (also if the flag is cleared again before it runs).
\<close>
definition notify :: "session \<Rightarrow> session" where
  "notify w = (if c_pc w = C_Waiting then w\<lparr>c_pc := C_Woken\<rparr> else w)"

definition event_set :: "caller \<Rightarrow> sys \<Rightarrow> sys" where
  "event_set who s =
     s\<lparr>detected_event := True, trace := trace s @ [EventSet who],
       sessions := map notify (sessions s)\<rparr>"

text \<open>
  \<open>async_listen\<close> from its call to its suspension in \<open>yield from\<close>; the new invocation gets
  the next free index.
\<close>
definition async_listen :: "sys \<Rightarrow> sys" where
  "async_listen s =
     (let n = length (sessions s) in
      s\<lparr>terminated := False, detected_phrase := None,
        hass_states := (hass_states s)(OBJECT_DECODER \<mapsto> (STATE_LISTENING, state_attrs)),
        detected_event := False,
        trace := trace s @ [StateSet (Coroutine n) OBJECT_DECODER STATE_LISTENING state_attrs,
                            EventClear (Coroutine n)],
        sessions := sessions s @ [new_session]\<rparr>)"

text \<open>The executor thread of invocation \<open>i\<close> calls \<open>detected_event.wait()\<close>.\<close>
definition executor_wait :: "nat \<Rightarrow> sys \<Rightarrow> sys option" where
  "executor_wait i s =
     (if i < length (sessions s) \<and> c_pc (sessions s ! i) = C_Submitted
      then Some (s\<lparr>sessions := (sessions s)
                  [i := (sessions s ! i)\<lparr>c_pc := if detected_event s then C_Woken else C_Waiting\<rparr>]\<rparr>)
      else None)"

text \<open>\<open>async_listen\<close> resumed after the \<open>yield from\<close>: the test \<open>if not terminated:\<close>.\<close>
definition async_listen_resume :: "nat \<Rightarrow> sys \<Rightarrow> sys option" where
  "async_listen_resume i s =
     (if i < length (sessions s) \<and> c_pc (sessions s ! i) = C_Woken
      then Some (s\<lparr>sessions := (sessions s)
                  [i := (sessions s ! i)\<lparr>c_pc := if \<not> terminated s then C_Join else C_Done\<rparr>]\<rparr>)
      else None)"

text \<open>
  \<open>thread.join()\<close> returns once the thread has ended; then the coroutine publishes the idle
  state and fires the event.
\<close>
definition async_listen_join :: "config \<Rightarrow> nat \<Rightarrow> sys \<Rightarrow> sys option" where
  "async_listen_join cfg i s =
     (if i < length (sessions s) \<and> c_pc (sessions s ! i) = C_Join
         \<and> (w_pc (sessions s ! i) = W_Done \<or> w_pc (sessions s ! i) = W_Raised)
      then Some (s\<lparr>hass_states := (hass_states s)(OBJECT_DECODER \<mapsto> (STATE_IDLE, state_attrs)),
                  trace := trace s @ [StateSet (Coroutine i) OBJECT_DECODER STATE_IDLE state_attrs,
                                      BusFire (Coroutine i) EVENT_HOTWORD_DETECTED
                                        [(''name'', name cfg)]],
                  sessions := (sessions s)[i := (sessions s ! i)\<lparr>c_pc := C_Done\<rparr>]\<rparr>)
      else None)"

definition async_terminate :: "sys \<Rightarrow> sys" where
  "async_terminate s = event_set Shutdown (s\<lparr>terminated := True\<rparr>)"

text \<open>A step of the thread of invocation \<open>i\<close>; its last step is \<open>detected_event.set()\<close>.\<close>
definition work :: "config \<Rightarrow> nat \<Rightarrow> input \<Rightarrow> sys \<Rightarrow> sys option" where
  "work cfg i inp s =
     (if i < length (sessions s) then
        (case listen cfg (terminated s) i inp (sessions s ! i) of
           None \<Rightarrow> None
         | Some (w', acts) \<Rightarrow>
             let s' = s\<lparr>trace := trace s @ acts, sessions := (sessions s)[i := w']\<rparr>
             in Some (if w_pc (sessions s ! i) = W_SetEvent then event_set (Worker i) s' else s'))
      else None)"

subsection \<open>Interleaving\<close>

text \<open>
  The event loop runs one coroutine at a time. While a coroutine is blocked in
  \<open>thread.join()\<close> the event loop runs nothing else.
\<close>
definition loop_blocked :: "sys \<Rightarrow> bool" where
  "loop_blocked s = (C_Join \<in> set (map c_pc (sessions s)))"

datatype label =
    Listen               \<comment> \<open>the service \<open>listen\<close> is called\<close>
  | Terminate            \<comment> \<open>the stop event of the host is delivered\<close>
  | Work nat input       \<comment> \<open>the thread of an invocation takes a step\<close>
  | Wait nat             \<comment> \<open>the executor calls \<open>detected_event.wait\<close> for an invocation\<close>
  | Resume nat           \<comment> \<open>the coroutine of an invocation is resumed\<close>
  | Join nat             \<comment> \<open>\<open>thread.join()\<close> of an invocation returns\<close>

fun step :: "config \<Rightarrow> label \<Rightarrow> sys \<Rightarrow> sys option" where
  "step cfg Listen s = (if loop_blocked s then None else Some (async_listen s))"
| "step cfg Terminate s = (if loop_blocked s then None else Some (async_terminate s))"
| "step cfg (Work i inp) s = work cfg i inp s"
| "step cfg (Wait i) s = executor_wait i s"
| "step cfg (Resume i) s = (if loop_blocked s then None else async_listen_resume i s)"
| "step cfg (Join i) s = async_listen_join cfg i s"

fun run :: "config \<Rightarrow> label list \<Rightarrow> sys \<Rightarrow> sys option" where
  "run cfg [] s = Some s"
| "run cfg (l # ls) s = (case step cfg l s of None \<Rightarrow> None | Some s' \<Rightarrow> run cfg ls s')"

subsection \<open>Observations\<close>

text \<open>
  The invocation \<open>i\<close>; an index that is not in use yet stands for an invocation that has not
  started.
\<close>
definition sess :: "sys \<Rightarrow> nat \<Rightarrow> session" where
  "sess s i = (if i < length (sessions s) then sessions s ! i else new_session)"

text \<open>The thread is inside both \<open>with\<close> blocks, in the \<open>while\<close> loop.\<close>
definition listening :: "session \<Rightarrow> bool" where
  "listening w =
     (w_pc w \<in> {W_LoopTop, W_Readinto, W_ProcessRaw, W_Hyp, W_EndUttEnter, W_EndUttExit})"


text \<open>The thread has left the loop and is on its way out of \<open>listen\<close>.\<close>
definition leaving :: "session \<Rightarrow> bool" where
  "leaving w = (w_pc w \<in> {W_ExitUtt, W_ExitAd, W_SetEvent, W_Done})"

text \<open>What the coroutine of invocation \<open>i\<close> does after \<open>if not terminated:\<close>: the idle state
  and the event.\<close>
fun is_publication :: "nat \<Rightarrow> action \<Rightarrow> bool" where
  "is_publication i (StateSet c e v a) = (c = Coroutine i \<and> v = STATE_IDLE)"
| "is_publication i (BusFire c e d) = (c = Coroutine i)"
| "is_publication i _ = False"

definition publications :: "nat \<Rightarrow> sys \<Rightarrow> action list" where
  "publications i s = filter (is_publication i) (trace s)"

text \<open>The events fired on the bus, by any invocation.\<close>
fun is_fire :: "action \<Rightarrow> bool" where
  "is_fire (BusFire c e d) = True"
| "is_fire _ = False"

definition notifications :: "sys \<Rightarrow> action list" where
  "notifications s = filter is_fire (trace s)"



fun is_teardown :: "action \<Rightarrow> bool" where
  "is_teardown (AdExit i) = True"
| "is_teardown (EventSet c) = True"
| "is_teardown _ = False"

definition teardown :: "sys \<Rightarrow> action list" where
  "teardown s = filter is_teardown (trace s)"

fun is_device_io :: "action \<Rightarrow> bool" where
  "is_device_io (AdReadinto i r) = True"
| "is_device_io (ProcessRaw i b) = True"
| "is_device_io _ = False"

definition device_io :: "sys \<Rightarrow> action list" where
  "device_io s = filter is_device_io (trace s)"

text \<open>Every publication of a state names the decoder object and carries \<open>state_attrs\<close>.\<close>
fun attrs_fixed :: "action \<Rightarrow> bool" where
  "attrs_fixed (StateSet c e v a) = (e = OBJECT_DECODER \<and> a = state_attrs)"
| "attrs_fixed _ = True"

text \<open>The decoder is handed a buffer of \<open>buffer_size\<close> bytes.\<close>
fun fed_whole :: "config \<Rightarrow> action \<Rightarrow> bool" where
  "fed_whole cfg (ProcessRaw i b) = (length b = nat (buffer_size cfg))"
| "fed_whole cfg _ = True"

text \<open>In a list read from the left, no \<open>b\<close> comes before the first \<open>a\<close>.\<close>
fun precedes :: "'a \<Rightarrow> 'a \<Rightarrow> 'a list \<Rightarrow> bool" where
  "precedes a b [] = True"
| "precedes a b (x # xs) = (if x = a then True else x \<noteq> b \<and> precedes a b xs)"


text \<open>Where the coroutine and the thread of an invocation stand.\<close>
definition control_points :: "nat \<Rightarrow> sys \<Rightarrow> cpc \<times> wpc" where
  "control_points i s = (c_pc (sessions s ! i), w_pc (sessions s ! i))"

text \<open>The flag, and whether the thread of an invocation is in its loop.\<close>
definition flag_and_thread :: "nat \<Rightarrow> sys \<Rightarrow> bool \<times> bool" where
  "flag_and_thread i s = (terminated s, listening (sessions s ! i))"

definition thread_outcome :: "nat \<Rightarrow> sys \<Rightarrow> wpc \<times> loop_exit option \<times> string option" where
  "thread_outcome i s =
     (w_pc (sessions s ! i), w_exit (sessions s ! i), w_detected_phrase (sessions s ! i))"


subsection \<open>Schedules of one invocation\<close>

text \<open>The steps of thread \<open>i\<close> from its start to the first test of the loop.\<close>
definition enter :: "nat \<Rightarrow> label list" where
  "enter i = [Work i NoInput, Work i NoInput, Work i NoInput]"

text \<open>One iteration: the test of \<open>terminated\<close>, \<open>readinto\<close> returning \<open>r\<close> with data \<open>d\<close>,
  \<open>process_raw\<close>, and \<open>hyp\<close> returning \<open>h\<close>.\<close>
definition frame :: "nat \<Rightarrow> int \<Rightarrow> byte list \<Rightarrow> string option \<Rightarrow> label list" where
  "frame i r d h = [Work i NoInput, Work i (Frame r d), Work i NoInput, Work i (Hypothesis h)]"

text \<open>Entering and leaving \<open>with decoder.end_utterance()\<close> after a hypothesis.\<close>
definition reset :: "nat \<Rightarrow> label list" where
  "reset i = [Work i NoInput, Work i NoInput]"

text \<open>Leaving both \<open>with\<close> blocks and setting the event.\<close>
definition leave :: "nat \<Rightarrow> label list" where
  "leave i = [Work i NoInput, Work i NoInput, Work i NoInput]"

text \<open>The executor's \<open>wait\<close>, the resumption of the coroutine, and \<open>thread.join()\<close>.\<close>
definition await :: "nat \<Rightarrow> label list" where
  "await i = [Wait i, Resume i, Join i]"

text \<open>A configuration with the default name and a four-byte buffer.\<close>
definition cfg0 :: config where
  "cfg0 = \<lparr>name = ''hotword_pocketsphinx'', hotword = ''wakeword'', buffer_size = 4\<rparr>"

subsection \<open>Invariants\<close>

text \<open>Once the thread has allocated \<open>buf\<close>, its length is \<open>buffer_size\<close>, and so is the
  length of every buffer handed to the decoder.\<close>
definition buf_sized :: "config \<Rightarrow> session \<Rightarrow> bool" where
  "buf_sized cfg w = (w_pc w = W_Start \<or> w_pc w = W_Raised \<or> length (buf w) = nat (buffer_size cfg))"

definition inv_fed :: "config \<Rightarrow> sys \<Rightarrow> bool" where
  "inv_fed cfg s = ((\<forall>i. buf_sized cfg (sess s i)) \<and> list_all (fed_whole cfg) (trace s))"

text \<open>The decoder object always has one of its two states, with \<open>state_attrs\<close>.\<close>
definition inv_attrs :: "sys \<Rightarrow> bool" where
  "inv_attrs s = (list_all attrs_fixed (trace s) \<and>
                  (hass_states s OBJECT_DECODER = Some (STATE_IDLE, state_attrs)
                   \<or> hass_states s OBJECT_DECODER = Some (STATE_LISTENING, state_attrs)))"

text \<open>
  Thread \<open>i\<close> leaves \<open>with audio_device\<close> once, sets the event once, as its last step, and
  in this order.
\<close>
definition signal_ok :: "nat \<Rightarrow> session \<Rightarrow> action list \<Rightarrow> bool" where
  "signal_ok i w tr =
     (count_list tr (AdExit i) = (if w_pc w = W_SetEvent \<or> w_pc w = W_Done then 1 else 0)
      \<and> count_list tr (EventSet (Worker i)) = (if w_pc w = W_Done then 1 else 0)
      \<and> precedes (AdExit i) (EventSet (Worker i)) tr)"

definition inv_signal :: "sys \<Rightarrow> bool" where
  "inv_signal s = (\<forall>i. signal_ok i (sess s i) (trace s))"

text \<open>
  The local \<open>detected_phrase\<close> of thread \<open>i\<close> is a hypothesis the decoder has returned to it;
  after a \<open>break\<close> it is the hotword. The closure variable of the same name is never assigned
  a string.
\<close>
definition phrase_ok :: "config \<Rightarrow> nat \<Rightarrow> session \<Rightarrow> action list \<Rightarrow> bool" where
  "phrase_ok cfg i w tr =
     ((w_exit w \<noteq> None \<longrightarrow> leaving w)
      \<and> (w_exit w = Some ByMatch \<longrightarrow> w_detected_phrase w = Some (hotword cfg))
      \<and> (w_detected_phrase w \<noteq> None \<longrightarrow> Hyp i (w_detected_phrase w) \<in> set tr)
      \<and> (hyp w \<noteq> None \<longrightarrow> Hyp i (hyp w) \<in> set tr))"

definition inv_phrase :: "config \<Rightarrow> sys \<Rightarrow> bool" where
  "inv_phrase cfg s = (detected_phrase s = None \<and> (\<forall>i. phrase_ok cfg i (sess s i) (trace s)))"

text \<open>The coroutine of an invocation publishes only after \<open>thread.join()\<close>.\<close>
definition inv_pub :: "sys \<Rightarrow> bool" where
  "inv_pub s = (\<forall>i. publications i s \<noteq> [] \<longrightarrow> w_pc (sess s i) = W_Done \<or> w_pc (sess s i) = W_Raised)"




text \<open>The state that \<open>cfg0\<close> reaches from \<open>async_setup\<close> along a schedule; a schedule that
  cannot run leaves the state of \<open>async_setup\<close>.\<close>
definition reached :: "label list \<Rightarrow> sys" where
  "reached ls = (case run cfg0 ls async_setup of Some s \<Rightarrow> s | None \<Rightarrow> async_setup)"

section \<open>Facts about single steps and runs\<close>

lemmas exec_defs =
  async_setup_def async_listen_def work_def listen_def new_session_def event_set_def
  notify_def loop_blocked_def executor_wait_def async_listen_resume_def async_listen_join_def
  async_terminate_def

lemmas sched_defs = enter_def frame_def reset_def leave_def await_def

lemma notify_fields [simp]:
  "w_pc (notify w) = w_pc w" "buf (notify w) = buf w" "hyp (notify w) = hyp w"
  "w_detected_phrase (notify w) = w_detected_phrase w" "w_exit (notify w) = w_exit w"
  by (simp_all add: notify_def)

lemma notify_new_session [simp]: "notify new_session = new_session"
  by (simp add: notify_def new_session_def)

lemma c_pc_notify_Join [simp]: "c_pc (notify w) = C_Join \<longleftrightarrow> c_pc w = C_Join"
  by (simp add: notify_def)

lemma sess_append_new:
  "sessions s' = sessions s @ [new_session] \<Longrightarrow> sess s' i = sess s i"
  by (simp add: sess_def nth_append)

lemma sess_map_notify:
  "sessions s' = map notify (sessions s) \<Longrightarrow> sess s' i = notify (sess s i)"
  by (simp add: sess_def)

lemma sess_async_listen [simp]: "sess (async_listen s) i = sess s i"
  by (rule sess_append_new) (simp add: async_listen_def Let_def)

lemma sess_event_set [simp]: "sess (event_set who s) i = notify (sess s i)"
  by (rule sess_map_notify) (simp add: event_set_def)

lemma sess_async_terminate [simp]: "sess (async_terminate s) i = notify (sess s i)"
  by (rule sess_map_notify) (simp add: async_terminate_def event_set_def)


lemma run_invariant:
  assumes "run cfg ls s = Some s'" and "P s"
    and "\<And>l s s'. l \<in> set ls \<Longrightarrow> P s \<Longrightarrow> step cfg l s = Some s' \<Longrightarrow> P s'"
  shows "P s'"
  using assms
proof (induction ls arbitrary: s)
  case Nil
  then show ?case by simp
next
  case (Cons l ls)
  from Cons.prems(1) obtain s1 where s1: "step cfg l s = Some s1" and r: "run cfg ls s1 = Some s'"
    by (auto split: option.splits)
  have "P s1" using Cons.prems(3) [of l s s1] Cons.prems(2) s1 by simp
  show ?case
  proof (rule Cons.IH [OF r \<open>P s1\<close>])
    fix l' t t' assume "l' \<in> set ls" "P t" "step cfg l' t = Some t'"
    then show "P t'" using Cons.prems(3) [of l' t t'] by simp
  qed
qed

lemma async_listen_fields [simp]:
  "terminated (async_listen s) = False"
  "detected_phrase (async_listen s) = None"
  "detected_event (async_listen s) = False"
  "hass_states (async_listen s) = (hass_states s)(OBJECT_DECODER \<mapsto> (STATE_LISTENING, state_attrs))"
  "trace (async_listen s) =
     trace s @ [StateSet (Coroutine (length (sessions s))) OBJECT_DECODER STATE_LISTENING state_attrs,
                EventClear (Coroutine (length (sessions s)))]"
  "sessions (async_listen s) = sessions s @ [new_session]"
  by (simp_all add: async_listen_def Let_def)

lemma event_set_fields [simp]:
  "terminated (event_set who s) = terminated s"
  "detected_phrase (event_set who s) = detected_phrase s"
  "detected_event (event_set who s) = True"
  "hass_states (event_set who s) = hass_states s"
  "trace (event_set who s) = trace s @ [EventSet who]"
  "sessions (event_set who s) = map notify (sessions s)"
  by (simp_all add: event_set_def)

lemma async_terminate_fields [simp]:
  "terminated (async_terminate s) = True"
  "detected_phrase (async_terminate s) = detected_phrase s"
  "detected_event (async_terminate s) = True"
  "hass_states (async_terminate s) = hass_states s"
  "trace (async_terminate s) = trace s @ [EventSet Shutdown]"
  "sessions (async_terminate s) = map notify (sessions s)"
  by (simp_all add: async_terminate_def)

lemma work_Some:
  "work cfg i inp s = Some s' \<longleftrightarrow>
     i < length (sessions s) \<and>
     (\<exists>w' acts. listen cfg (terminated s) i inp (sessions s ! i) = Some (w', acts) \<and>
        s' = (if w_pc (sessions s ! i) = W_SetEvent
              then event_set (Worker i) (s\<lparr>trace := trace s @ acts, sessions := (sessions s)[i := w']\<rparr>)
              else s\<lparr>trace := trace s @ acts, sessions := (sessions s)[i := w']\<rparr>))"
  by (auto simp: work_def Let_def split: option.splits)

lemma work_effect:
  assumes "work cfg i inp s = Some s'"
  obtains w' acts where
    "i < length (sessions s)"
    "listen cfg (terminated s) i inp (sess s i) = Some (w', acts)"
    "terminated s' = terminated s" "detected_phrase s' = detected_phrase s"
    "hass_states s' = hass_states s" "length (sessions s') = length (sessions s)"
    "trace s' = trace s @ acts @ (if w_pc (sess s i) = W_SetEvent then [EventSet (Worker i)] else [])"
    "detected_event s' = (w_pc (sess s i) = W_SetEvent \<or> detected_event s)"
    "sess s' = (if w_pc (sess s i) = W_SetEvent then notify \<circ> (sess s)(i := w') else (sess s)(i := w'))"
proof -
  from assms obtain w' acts where i: "i < length (sessions s)"
    and l: "listen cfg (terminated s) i inp (sessions s ! i) = Some (w', acts)"
    and s': "s' = (if w_pc (sessions s ! i) = W_SetEvent
              then event_set (Worker i) (s\<lparr>trace := trace s @ acts, sessions := (sessions s)[i := w']\<rparr>)
              else s\<lparr>trace := trace s @ acts, sessions := (sessions s)[i := w']\<rparr>)"
    unfolding work_Some by blast
  have si: "sess s i = sessions s ! i" using i by (simp add: sess_def)
  show thesis
  proof (cases "w_pc (sessions s ! i) = W_SetEvent")
    case True
    with s' have e: "s' = event_set (Worker i) (s\<lparr>trace := trace s @ acts, sessions := (sessions s)[i := w']\<rparr>)"
      by simp
    have "sess s' j = (notify \<circ> (sess s)(i := w')) j" for j
      using i by (simp add: e sess_def)
    then have "sess s' = notify \<circ> (sess s)(i := w')" by blast
    then show thesis
      using that [of w' acts] i l True by (simp add: si e)
  next
    case False
    with s' have e: "s' = s\<lparr>trace := trace s @ acts, sessions := (sessions s)[i := w']\<rparr>"
      by simp
    have "sess s' j = ((sess s)(i := w')) j" for j
      using i by (simp add: e sess_def)
    then have "sess s' = (sess s)(i := w')" by blast
    then show thesis
      using that [of w' acts] i l False by (simp add: si e)
  qed
qed

lemma executor_wait_effect:
  assumes "executor_wait i s = Some s'"
  obtains "i < length (sessions s)" "c_pc (sess s i) = C_Submitted"
    "terminated s' = terminated s" "detected_phrase s' = detected_phrase s"
    "hass_states s' = hass_states s" "length (sessions s') = length (sessions s)"
    "trace s' = trace s" "detected_event s' = detected_event s"
    "sess s' = (sess s)(i := (sess s i)\<lparr>c_pc := if detected_event s then C_Woken else C_Waiting\<rparr>)"
proof -
  from assms have i: "i < length (sessions s)" and c: "c_pc (sessions s ! i) = C_Submitted"
    and e: "s' = s\<lparr>sessions := (sessions s)
                  [i := (sessions s ! i)\<lparr>c_pc := if detected_event s then C_Woken else C_Waiting\<rparr>]\<rparr>"
    by (auto simp: executor_wait_def split: if_splits)
  have "sess s' j = ((sess s)(i := (sess s i)\<lparr>c_pc := if detected_event s then C_Woken else C_Waiting\<rparr>)) j" for j
    using i by (simp add: e sess_def)
  then have "sess s' = (sess s)(i := (sess s i)\<lparr>c_pc := if detected_event s then C_Woken else C_Waiting\<rparr>)"
    by blast
  then show thesis using that i c by (simp add: e sess_def)
qed

lemma async_listen_resume_effect:
  assumes "async_listen_resume i s = Some s'"
  obtains "i < length (sessions s)" "c_pc (sess s i) = C_Woken"
    "terminated s' = terminated s" "detected_phrase s' = detected_phrase s"
    "hass_states s' = hass_states s" "length (sessions s') = length (sessions s)"
    "trace s' = trace s" "detected_event s' = detected_event s"
    "sess s' = (sess s)(i := (sess s i)\<lparr>c_pc := if \<not> terminated s then C_Join else C_Done\<rparr>)"
proof -
  from assms have i: "i < length (sessions s)" and c: "c_pc (sessions s ! i) = C_Woken"
    and e: "s' = s\<lparr>sessions := (sessions s)
                  [i := (sessions s ! i)\<lparr>c_pc := if \<not> terminated s then C_Join else C_Done\<rparr>]\<rparr>"
    by (auto simp: async_listen_resume_def split: if_splits)
  have "sess s' j = ((sess s)(i := (sess s i)\<lparr>c_pc := if \<not> terminated s then C_Join else C_Done\<rparr>)) j" for j
    using i by (simp add: e sess_def)
  then have "sess s' = (sess s)(i := (sess s i)\<lparr>c_pc := if \<not> terminated s then C_Join else C_Done\<rparr>)"
    by blast
  then show thesis using that i c by (simp add: e sess_def)
qed

lemma async_listen_join_effect:
  assumes "async_listen_join cfg i s = Some s'"
  obtains "i < length (sessions s)" "c_pc (sess s i) = C_Join"
    "w_pc (sess s i) = W_Done \<or> w_pc (sess s i) = W_Raised"
    "terminated s' = terminated s" "detected_phrase s' = detected_phrase s"
    "hass_states s' = (hass_states s)(OBJECT_DECODER \<mapsto> (STATE_IDLE, state_attrs))"
    "length (sessions s') = length (sessions s)"
    "trace s' = trace s @ [StateSet (Coroutine i) OBJECT_DECODER STATE_IDLE state_attrs,
                          BusFire (Coroutine i) EVENT_HOTWORD_DETECTED [(''name'', name cfg)]]"
    "detected_event s' = detected_event s"
    "sess s' = (sess s)(i := (sess s i)\<lparr>c_pc := C_Done\<rparr>)"
proof -
  from assms have i: "i < length (sessions s)" and c: "c_pc (sessions s ! i) = C_Join"
    and w: "w_pc (sessions s ! i) = W_Done \<or> w_pc (sessions s ! i) = W_Raised"
    and e: "s' = s\<lparr>hass_states := (hass_states s)(OBJECT_DECODER \<mapsto> (STATE_IDLE, state_attrs)),
                  trace := trace s @ [StateSet (Coroutine i) OBJECT_DECODER STATE_IDLE state_attrs,
                                      BusFire (Coroutine i) EVENT_HOTWORD_DETECTED
                                        [(''name'', name cfg)]],
                  sessions := (sessions s)[i := (sessions s ! i)\<lparr>c_pc := C_Done\<rparr>]\<rparr>"
    by (auto simp: async_listen_join_def split: if_splits)
  have "sess s' j = ((sess s)(i := (sess s i)\<lparr>c_pc := C_Done\<rparr>)) j" for j
    using i by (simp add: e sess_def)
  then have "sess s' = (sess s)(i := (sess s i)\<lparr>c_pc := C_Done\<rparr>)"
    by blast
  then show thesis using that i c w by (simp add: e sess_def)
qed

lemma step_cases [consumes 1, case_names Listen Terminate Work Wait Resume Join]:
  assumes "step cfg l s = Some s'"
  obtains
    (Listen) "l = Listen" "\<not> loop_blocked s" "s' = async_listen s"
  | (Terminate) "l = Terminate" "\<not> loop_blocked s" "s' = async_terminate s"
  | (Work) i inp where "l = Work i inp" "work cfg i inp s = Some s'"
  | (Wait) i where "l = Wait i" "executor_wait i s = Some s'"
  | (Resume) i where "l = Resume i" "\<not> loop_blocked s" "async_listen_resume i s = Some s'"
  | (Join) i where "l = Join i" "async_listen_join cfg i s = Some s'"
  using assms by (cases l) (auto split: if_splits)


lemma listen_ended: "listen cfg t i inp w = Some (w', acts) \<Longrightarrow> w_pc w \<noteq> W_Done \<and> w_pc w \<noteq> W_Raised"
  by (auto simp: listen_def split: wpc.splits input.splits if_splits)

lemma listen_attrs_fixed: "listen cfg t i inp w = Some (w', acts) \<Longrightarrow> list_all attrs_fixed acts"
  by (auto simp: listen_def split: wpc.splits input.splits if_splits)

lemma listen_no_publication:
  "listen cfg t i inp w = Some (w', acts) \<Longrightarrow> filter (is_publication j) acts = []"
  by (auto simp: listen_def split: wpc.splits input.splits if_splits)

lemma length_readinto: "length (readinto b d) = length b"
  by (simp add: readinto_def)

lemma listen_buf_sized:
  "listen cfg t i inp w = Some (w', acts) \<Longrightarrow> buf_sized cfg w \<Longrightarrow>
   buf_sized cfg w' \<and> list_all (fed_whole cfg) acts"
  by (auto simp: listen_def buf_sized_def length_readinto split: wpc.splits input.splits if_splits)

lemma buf_sized_notify: "buf_sized cfg (notify w) = buf_sized cfg w"
  by (simp add: buf_sized_def)

lemma buf_sized_c_pc: "buf_sized cfg (w\<lparr>c_pc := c\<rparr>) = buf_sized cfg w"
  by (simp add: buf_sized_def)

lemma buf_sized_new: "buf_sized cfg new_session"
  by (simp add: buf_sized_def new_session_def)

lemma inv_fed_step:
  assumes "inv_fed cfg s" "step cfg l s = Some s'"
  shows "inv_fed cfg s'"
  using assms(2)
proof (cases rule: step_cases)
  case Listen
  with assms(1) show ?thesis by (simp add: inv_fed_def buf_sized_notify buf_sized_c_pc buf_sized_new)
next
  case Terminate
  with assms(1) show ?thesis by (simp add: inv_fed_def buf_sized_notify buf_sized_c_pc buf_sized_new)
next
  case (Work i inp)
  from Work(2) show ?thesis
  proof (rule work_effect)
    fix w' acts
    assume l: "listen cfg (terminated s) i inp (sess s i) = Some (w', acts)"
      and t: "trace s' = trace s @ acts @ (if w_pc (sess s i) = W_SetEvent then [EventSet (Worker i)] else [])"
      and e: "sess s' = (if w_pc (sess s i) = W_SetEvent then notify \<circ> (sess s)(i := w') else (sess s)(i := w'))"
    from assms(1) have "buf_sized cfg (sess s i)" by (simp add: inv_fed_def)
    from listen_buf_sized [OF l this] assms(1) show ?thesis
      by (simp add: inv_fed_def t e buf_sized_notify buf_sized_c_pc buf_sized_new)
  qed
next
  case (Wait i)
  from Wait(2) assms(1) show ?thesis
    by (elim executor_wait_effect) (simp add: inv_fed_def buf_sized_notify buf_sized_c_pc buf_sized_new)
next
  case (Resume i)
  from Resume(3) assms(1) show ?thesis
    by (elim async_listen_resume_effect) (simp add: inv_fed_def buf_sized_notify buf_sized_c_pc buf_sized_new)
next
  case (Join i)
  from Join(2) assms(1) show ?thesis
    by (elim async_listen_join_effect) (simp add: inv_fed_def buf_sized_notify buf_sized_c_pc buf_sized_new)
qed

lemma inv_fed_setup: "inv_fed cfg async_setup"
  by (simp add: inv_fed_def async_setup_def sess_def buf_sized_notify buf_sized_c_pc buf_sized_new)

lemma inv_fed_run: "run cfg ls async_setup = Some s \<Longrightarrow> inv_fed cfg s"
  by (erule run_invariant [where P = "inv_fed cfg"]) (auto intro: inv_fed_setup inv_fed_step)

lemma inv_attrs_step:
  assumes "inv_attrs s" "step cfg l s = Some s'"
  shows "inv_attrs s'"
  using assms(2)
proof (cases rule: step_cases)
  case Listen
  with assms(1) show ?thesis by (simp add: inv_attrs_def)
next
  case Terminate
  with assms(1) show ?thesis by (simp add: inv_attrs_def)
next
  case (Work i inp)
  from Work(2) show ?thesis
  proof (rule work_effect)
    fix w' acts
    assume l: "listen cfg (terminated s) i inp (sess s i) = Some (w', acts)"
      and t: "trace s' = trace s @ acts @ (if w_pc (sess s i) = W_SetEvent then [EventSet (Worker i)] else [])"
      and h: "hass_states s' = hass_states s"
    from listen_attrs_fixed [OF l] assms(1) show ?thesis
      by (simp add: inv_attrs_def t h)
  qed
next
  case (Wait i)
  from Wait(2) assms(1) show ?thesis
    by (elim executor_wait_effect) (simp add: inv_attrs_def)
next
  case (Resume i)
  from Resume(3) assms(1) show ?thesis
    by (elim async_listen_resume_effect) (simp add: inv_attrs_def)
next
  case (Join i)
  from Join(2) assms(1) show ?thesis
    by (elim async_listen_join_effect) (simp add: inv_attrs_def)
qed

lemma inv_attrs_setup: "inv_attrs async_setup"
  by (simp add: inv_attrs_def async_setup_def)

lemma inv_attrs_run: "run cfg ls async_setup = Some s \<Longrightarrow> inv_attrs s"
  by (erule run_invariant [where P = inv_attrs]) (blast intro: inv_attrs_setup inv_attrs_step)+

lemma notify_idem: "notify (notify w) = notify w"
  by (simp add: notify_def)

lemma step_keeps_terminated:
  assumes "step cfg l s = Some s'" and "l \<noteq> Listen" and "terminated s"
  shows "terminated s'"
  using assms(1)
proof (cases rule: step_cases)
  case Listen
  with assms(2) show ?thesis by simp
next
  case Terminate
  then show ?thesis by simp
next
  case (Work i inp)
  from Work(2) assms(3) show ?thesis by (elim work_effect) simp
next
  case (Wait i)
  from Wait(2) assms(3) show ?thesis by (elim executor_wait_effect) simp
next
  case (Resume i)
  from Resume(3) assms(3) show ?thesis by (elim async_listen_resume_effect) simp
next
  case (Join i)
  from Join(2) assms(3) show ?thesis by (elim async_listen_join_effect) simp
qed

lemma run_keeps_terminated:
  assumes "run cfg ls s = Some s'" and "Listen \<notin> set ls" and "terminated s"
  shows "terminated s'"
proof (rule run_invariant [OF assms(1), where P = terminated])
  show "terminated s" by (rule assms(3))
next
  fix l t t'
  assume "l \<in> set ls" "terminated t" "step cfg l t = Some t'"
  with assms(2) show "terminated t'"
    by (auto intro: step_keeps_terminated)
qed

lemma precedes_notin: "b \<notin> set xs \<Longrightarrow> precedes a b xs"
  by (induction xs) auto

lemma precedes_append:
  "precedes a b (xs @ ys) = (precedes a b xs \<and> (a \<in> set xs \<or> precedes a b ys))"
  by (induction xs) auto

lemma listen_signal:
  assumes "listen cfg t i inp w = Some (w', acts)"
  shows "count_list acts (AdExit j) = (if j = i \<and> w_pc w = W_ExitAd then 1 else 0)"
    and "EventSet c \<notin> set acts"
    and "(w_pc w' = W_SetEvent) = (w_pc w = W_ExitAd)"
    and "(w_pc w' = W_Done) = (w_pc w = W_SetEvent)"
  using assms by (auto simp: listen_def split: wpc.splits input.splits if_splits)

lemma signal_ok_notify: "signal_ok i (notify w) tr = signal_ok i w tr"
  by (simp add: signal_ok_def)

lemma signal_ok_c_pc: "signal_ok i (w\<lparr>c_pc := c\<rparr>) tr = signal_ok i w tr"
  by (simp add: signal_ok_def)

lemma signal_ok_other:
  assumes "signal_ok j w tr" and "count_list xs (AdExit j) = 0" and "EventSet (Worker j) \<notin> set xs"
  shows "signal_ok j w (tr @ xs)"
  using assms by (simp add: signal_ok_def precedes_append precedes_notin)

lemma signal_ok_work:
  assumes l: "listen cfg t i inp w = Some (w', acts)" and ok: "signal_ok i w tr"
  shows "signal_ok i w' (tr @ acts @ (if w_pc w = W_SetEvent then [EventSet (Worker i)] else []))"
proof -
  note ls = listen_signal [OF l]
  have nd: "w_pc w \<noteq> W_Done" using listen_ended [OF l] by simp
  have e: "EventSet (Worker i) \<notin> set acts" by (rule ls(2))
  show ?thesis
  proof (cases "w_pc w = W_SetEvent")
    case True
    with ok have c: "count_list tr (AdExit i) = 1"
      by (simp add: signal_ok_def)
    have "AdExit i \<in> set tr"
    proof (rule ccontr)
      assume "AdExit i \<notin> set tr"
      then have "count_list tr (AdExit i) = 0" by simp
      with c show False by simp
    qed
    with True ok ls(1) [of i] ls(3,4) e show ?thesis
      by (simp add: signal_ok_def precedes_append)
  next
    case False
    with nd ok ls(1) [of i] ls(3,4) e show ?thesis
      by (auto simp: signal_ok_def precedes_append precedes_notin)
  qed
qed

lemma inv_signal_step:
  assumes "inv_signal s" "step cfg l s = Some s'"
  shows "inv_signal s'"
  using assms(2)
proof (cases rule: step_cases)
  case Listen
  with assms(1) show ?thesis by (simp add: inv_signal_def signal_ok_other signal_ok_notify signal_ok_c_pc)
next
  case Terminate
  with assms(1) show ?thesis by (simp add: inv_signal_def signal_ok_other signal_ok_notify signal_ok_c_pc)
next
  case (Work i inp)
  from Work(2) show ?thesis
  proof (rule work_effect)
    fix w' acts
    assume l: "listen cfg (terminated s) i inp (sess s i) = Some (w', acts)"
      and t: "trace s' = trace s @ acts @ (if w_pc (sess s i) = W_SetEvent then [EventSet (Worker i)] else [])"
      and e: "sess s' = (if w_pc (sess s i) = W_SetEvent then notify \<circ> (sess s)(i := w') else (sess s)(i := w'))"
    have "signal_ok j (sess s' j) (trace s')" for j
    proof (cases "j = i")
      case True
      from assms(1) have "signal_ok i (sess s i) (trace s)" by (simp add: inv_signal_def signal_ok_notify signal_ok_c_pc)
      from signal_ok_work [OF l this] True show ?thesis
        by (cases "w_pc (sess s i) = W_SetEvent") (simp_all add: t e signal_ok_notify signal_ok_c_pc)
    next
      case False
      from assms(1) have "signal_ok j (sess s j) (trace s)" by (simp add: inv_signal_def signal_ok_notify signal_ok_c_pc)
      moreover have "count_list (acts @ (if w_pc (sess s i) = W_SetEvent then [EventSet (Worker i)] else [])) (AdExit j) = 0"
        using listen_signal(1) [OF l, of j] False by simp
      moreover have "EventSet (Worker j) \<notin> set (acts @ (if w_pc (sess s i) = W_SetEvent then [EventSet (Worker i)] else []))"
        using listen_signal(2) [OF l, of "Worker j"] False by simp
      ultimately have "signal_ok j (sess s j) (trace s @ acts @ (if w_pc (sess s i) = W_SetEvent then [EventSet (Worker i)] else []))"
        by (rule signal_ok_other)
      with False show ?thesis
        by (cases "w_pc (sess s i) = W_SetEvent") (simp_all add: t e signal_ok_notify signal_ok_c_pc)
    qed
    then show ?thesis by (simp add: inv_signal_def signal_ok_notify signal_ok_c_pc)
  qed
next
  case (Wait i)
  from Wait(2) assms(1) show ?thesis
    by (elim executor_wait_effect) (simp add: inv_signal_def signal_ok_notify signal_ok_c_pc)
next
  case (Resume i)
  from Resume(3) assms(1) show ?thesis
    by (elim async_listen_resume_effect) (simp add: inv_signal_def signal_ok_notify signal_ok_c_pc)
next
  case (Join i)
  from Join(2) assms(1) show ?thesis
    by (elim async_listen_join_effect) (simp add: inv_signal_def signal_ok_other signal_ok_notify signal_ok_c_pc)
qed

lemma inv_signal_setup: "inv_signal async_setup"
  by (simp add: inv_signal_def signal_ok_def async_setup_def sess_def new_session_def)

lemma inv_signal_run: "run cfg ls async_setup = Some s \<Longrightarrow> inv_signal s"
  by (erule run_invariant [where P = inv_signal]) (blast intro: inv_signal_setup inv_signal_step)+

lemma leaving_notify: "leaving (notify w) = leaving w"
  by (simp add: leaving_def)

lemma leaving_c_pc: "leaving (w\<lparr>c_pc := c\<rparr>) = leaving w"
  by (simp add: leaving_def)

lemma phrase_ok_notify: "phrase_ok cfg i (notify w) tr = phrase_ok cfg i w tr"
  by (simp add: phrase_ok_def leaving_notify)

lemma phrase_ok_c_pc: "phrase_ok cfg i (w\<lparr>c_pc := c\<rparr>) tr = phrase_ok cfg i w tr"
  by (simp add: phrase_ok_def leaving_c_pc)

lemma phrase_ok_append: "phrase_ok cfg i w tr \<Longrightarrow> phrase_ok cfg i w (tr @ xs)"
  by (simp add: phrase_ok_def)

lemma phrase_ok_listen:
  "listen cfg t i inp w = Some (w', acts) \<Longrightarrow> phrase_ok cfg i w tr \<Longrightarrow> phrase_ok cfg i w' (tr @ acts)"
  by (auto simp: listen_def phrase_ok_def leaving_def split: wpc.splits input.splits if_splits)

lemma inv_phrase_step:
  assumes "inv_phrase cfg s" "step cfg l s = Some s'"
  shows "inv_phrase cfg s'"
  using assms(2)
proof (cases rule: step_cases)
  case Listen
  with assms(1) show ?thesis by (simp add: inv_phrase_def phrase_ok_append phrase_ok_notify phrase_ok_c_pc)
next
  case Terminate
  with assms(1) show ?thesis by (simp add: inv_phrase_def phrase_ok_append phrase_ok_notify phrase_ok_c_pc)
next
  case (Work i inp)
  from Work(2) show ?thesis
  proof (rule work_effect)
    fix w' acts
    assume l: "listen cfg (terminated s) i inp (sess s i) = Some (w', acts)"
      and t: "trace s' = trace s @ acts @ (if w_pc (sess s i) = W_SetEvent then [EventSet (Worker i)] else [])"
      and e: "sess s' = (if w_pc (sess s i) = W_SetEvent then notify \<circ> (sess s)(i := w') else (sess s)(i := w'))"
      and d: "detected_phrase s' = detected_phrase s"
    have "phrase_ok cfg j (sess s' j) (trace s')" for j
    proof (cases "j = i")
      case True
      from assms(1) have "phrase_ok cfg i (sess s i) (trace s)" by (simp add: inv_phrase_def phrase_ok_notify phrase_ok_c_pc)
      from phrase_ok_listen [OF l this]
      have "phrase_ok cfg i w' ((trace s @ acts) @ (if w_pc (sess s i) = W_SetEvent then [EventSet (Worker i)] else []))"
        by (rule phrase_ok_append)
      with True show ?thesis
        by (cases "w_pc (sess s i) = W_SetEvent") (simp_all add: t e phrase_ok_notify phrase_ok_c_pc)
    next
      case False
      from assms(1) have "phrase_ok cfg j (sess s j) (trace s)" by (simp add: inv_phrase_def phrase_ok_notify phrase_ok_c_pc)
      then have "phrase_ok cfg j (sess s j) (trace s @ acts @ (if w_pc (sess s i) = W_SetEvent then [EventSet (Worker i)] else []))"
        by (rule phrase_ok_append)
      with False show ?thesis
        by (cases "w_pc (sess s i) = W_SetEvent") (simp_all add: t e phrase_ok_notify phrase_ok_c_pc)
    qed
    with assms(1) d show ?thesis by (simp add: inv_phrase_def phrase_ok_notify phrase_ok_c_pc)
  qed
next
  case (Wait i)
  from Wait(2) assms(1) show ?thesis
    by (elim executor_wait_effect) (simp add: inv_phrase_def phrase_ok_notify phrase_ok_c_pc)
next
  case (Resume i)
  from Resume(3) assms(1) show ?thesis
    by (elim async_listen_resume_effect) (simp add: inv_phrase_def phrase_ok_notify phrase_ok_c_pc)
next
  case (Join i)
  from Join(2) assms(1) show ?thesis
    by (elim async_listen_join_effect) (simp add: inv_phrase_def phrase_ok_append phrase_ok_notify phrase_ok_c_pc)
qed

lemma inv_phrase_setup: "inv_phrase cfg async_setup"
  by (simp add: inv_phrase_def phrase_ok_def async_setup_def sess_def new_session_def)

lemma inv_phrase_run: "run cfg ls async_setup = Some s \<Longrightarrow> inv_phrase cfg s"
  by (erule run_invariant [where P = "inv_phrase cfg"]) (blast intro: inv_phrase_setup inv_phrase_step)+

lemma closure_detected_phrase_unwritten:
  "run cfg ls async_setup = Some s \<Longrightarrow> detected_phrase s = None"
  by (drule inv_phrase_run) (simp add: inv_phrase_def phrase_ok_notify phrase_ok_c_pc)

lemma idle_not_listening: "STATE_LISTENING \<noteq> STATE_IDLE"
  by (simp add: STATE_LISTENING_def STATE_IDLE_def)

lemma publications_simps:
  "publications i (async_listen s) = publications i s"
  "publications i (async_terminate s) = publications i s"
  by (simp_all add: publications_def idle_not_listening)

lemma inv_pub_step:
  assumes "inv_pub s" "step cfg l s = Some s'"
  shows "inv_pub s'"
  using assms(2)
proof (cases rule: step_cases)
  case Listen
  with assms(1) show ?thesis by (simp add: inv_pub_def publications_simps)
next
  case Terminate
  with assms(1) show ?thesis by (simp add: inv_pub_def publications_simps)
next
  case (Work i inp)
  from Work(2) show ?thesis
  proof (rule work_effect)
    fix w' acts
    assume l: "listen cfg (terminated s) i inp (sess s i) = Some (w', acts)"
      and t: "trace s' = trace s @ acts @ (if w_pc (sess s i) = W_SetEvent then [EventSet (Worker i)] else [])"
      and e: "sess s' = (if w_pc (sess s i) = W_SetEvent then notify \<circ> (sess s)(i := w') else (sess s)(i := w'))"
    have p: "publications j s' = publications j s" for j
      using listen_no_publication [OF l, of j] by (simp add: publications_def t)
    have "publications i s = []"
      using assms(1) listen_ended [OF l] by (auto simp: inv_pub_def)
    with assms(1) show ?thesis
      by (cases "w_pc (sess s i) = W_SetEvent") (auto simp: inv_pub_def p e)
  qed
next
  case (Wait i)
  from Wait(2) assms(1) show ?thesis
    by (elim executor_wait_effect) (simp add: inv_pub_def publications_def)
next
  case (Resume i)
  from Resume(3) assms(1) show ?thesis
    by (elim async_listen_resume_effect) (simp add: inv_pub_def publications_def)
next
  case (Join i)
  from Join(2) assms(1) show ?thesis
    by (elim async_listen_join_effect) (simp add: inv_pub_def publications_def)
qed

lemma inv_pub_setup: "inv_pub async_setup"
  by (simp add: inv_pub_def publications_def async_setup_def)

lemma inv_pub_run: "run cfg ls async_setup = Some s \<Longrightarrow> inv_pub s"
  by (erule run_invariant [where P = inv_pub]) (blast intro: inv_pub_setup inv_pub_step)+













section \<open>The claims\<close>

subsection \<open>C1: exclusivity of sessions\<close>




subsection \<open>C2: a read error\<close>

text \<open>
  C2: a session whose loop ends because \<open>readinto\<close> returns a negative value ends without a
  detection, with the audio device closed and no detection notification. In the source the
  coroutine only tests \<open>terminated\<close> after the thread has set the event, so after a read error
  it publishes idle and fires \<open>hotword_detected\<close>, the event that the module documents as
  fired when the hotword is detected. The run below is the scenario of three good frames
  without a hypothesis followed by a read that returns \<open>-1\<close>: the thread leaves by the read
  error with no phrase and closes the device before it sets the event, and one detection
  notification is fired.
\<close>
theorem read_error_fires_detection:
  "map_option notifications
     (run cfg0 ([Listen] @ enter 0 @ frame 0 4 [1, 2, 3, 4] None @ frame 0 4 [5, 6, 7, 8] None
                @ frame 0 4 [9, 10, 11, 12] None @ [Work 0 NoInput, Work 0 (Frame (- 1) [])]
                @ leave 0 @ await 0) async_setup)
   = Some [BusFire (Coroutine 0) ''hotword_detected'' [(''name'', ''hotword_pocketsphinx'')]]
   \<and> map_option (thread_outcome 0)
     (run cfg0 ([Listen] @ enter 0 @ frame 0 4 [1, 2, 3, 4] None @ frame 0 4 [5, 6, 7, 8] None
                @ frame 0 4 [9, 10, 11, 12] None @ [Work 0 NoInput, Work 0 (Frame (- 1) [])]
                @ leave 0 @ await 0) async_setup)
   = Some (W_Done, Some ByReadError, None)
   \<and> map_option teardown
     (run cfg0 ([Listen] @ enter 0 @ frame 0 4 [1, 2, 3, 4] None @ frame 0 4 [5, 6, 7, 8] None
                @ frame 0 4 [9, 10, 11, 12] None @ [Work 0 NoInput, Work 0 (Frame (- 1) [])]
                @ leave 0 @ await 0) async_setup)
   = Some [AdExit 0, EventSet (Worker 0)]"
  by (simp add: exec_defs sched_defs cfg0_def notifications_def thread_outcome_def teardown_def
        EVENT_HOTWORD_DETECTED_def)

subsection \<open>C3: cancellation\<close>




subsection \<open>C4: detection after non-matching hypotheses\<close>



subsection \<open>C5: when the detected phrase is set\<close>

text \<open>
  C5 as stated: the detected phrase is set only if the session is Completed and ended by a
  match, never while Listening and never when the session ends by termination or read error.
  The source assigns \<open>detected_phrase = hyp.hypstr\<close> for every hypothesis, before it compares
  it with the hotword. After the hypothesis \<open>foo\<close> the thread is back at the top of its loop
  with the phrase \<open>foo\<close>, and it keeps it when the next read fails.
\<close>
theorem phrase_set_by_non_matching_hypothesis:
  "map_option (thread_outcome 0)
     (run cfg0 ([Listen] @ enter 0 @ frame 0 4 [1, 2, 3, 4] (Some ''foo'') @ reset 0) async_setup)
   = Some (W_LoopTop, None, Some ''foo'')
   \<and> map_option (thread_outcome 0)
     (run cfg0 ([Listen] @ enter 0 @ frame 0 4 [1, 2, 3, 4] (Some ''foo'') @ reset 0
                @ [Work 0 NoInput, Work 0 (Frame (- 1) [])] @ leave 0) async_setup)
   = Some (W_Done, Some ByReadError, Some ''foo'')"
  by (simp add: exec_defs sched_defs cfg0_def thread_outcome_def)

text \<open>
  C5 as the code has it: the detected phrase of a session is set only if the decoder has
  returned that phrase as a hypothesis to the thread of the session; and when the session
  ended by a match it is the hotword.
\<close>
theorem detected_phrase_is_a_hypothesis:
  assumes "run cfg ls async_setup = Some s" and "i < length (sessions s)"
  shows "(w_detected_phrase (sessions s ! i) \<noteq> None \<longrightarrow>
            Hyp i (w_detected_phrase (sessions s ! i)) \<in> set (trace s))
       \<and> (w_exit (sessions s ! i) = Some ByMatch \<longrightarrow>
            w_detected_phrase (sessions s ! i) = Some (hotword cfg))"
proof -
  from inv_phrase_run [OF assms(1)] have "phrase_ok cfg i (sess s i) (trace s)"
    by (simp add: inv_phrase_def)
  with assms(2) show ?thesis by (simp add: phrase_ok_def sess_def)
qed

theorem detected_phrase_is_a_hypothesis_witness:
  "run cfg0 ([Listen] @ enter 0 @ frame 0 4 [1, 2, 3, 4] (Some ''wakeword'') @ reset 0) async_setup
     = Some (reached ([Listen] @ enter 0 @ frame 0 4 [1, 2, 3, 4] (Some ''wakeword'') @ reset 0))
   \<and> 0 < length (sessions (reached ([Listen] @ enter 0 @ frame 0 4 [1, 2, 3, 4] (Some ''wakeword'') @ reset 0)))
   \<and> w_exit (sessions (reached ([Listen] @ enter 0 @ frame 0 4 [1, 2, 3, 4] (Some ''wakeword'') @ reset 0)) ! 0)
       = Some ByMatch
   \<and> w_detected_phrase (sessions (reached ([Listen] @ enter 0 @ frame 0 4 [1, 2, 3, 4] (Some ''wakeword'') @ reset 0)) ! 0)
       = Some (hotword cfg0)
   \<and> Hyp 0 (Some ''wakeword'')
       \<in> set (trace (reached ([Listen] @ enter 0 @ frame 0 4 [1, 2, 3, 4] (Some ''wakeword'') @ reset 0)))"
proof -
  let ?s = "reached ([Listen] @ enter 0 @ frame 0 4 [1, 2, 3, 4] (Some ''wakeword'') @ reset 0)"
  have r: "run cfg0 ([Listen] @ enter 0 @ frame 0 4 [1, 2, 3, 4] (Some ''wakeword'') @ reset 0) async_setup
     = Some ?s"
    and i: "0 < length (sessions ?s)"
    and e: "w_exit (sessions ?s ! 0) = Some ByMatch"
    by (simp_all add: reached_def exec_defs sched_defs cfg0_def)
  have h: "hotword cfg0 = ''wakeword''" by (simp add: cfg0_def)
  from detected_phrase_is_a_hypothesis [OF r i] e h r i show ?thesis by auto
qed

subsection \<open>C6: the completion signal\<close>

text \<open>
  C6 as stated: the completion signal is asserted exactly once per session, and only after the
  audio device is closed, in every interleaving with a shutdown request. \<open>async_terminate\<close>
  sets the event itself, at once; the thread, still inside \<open>with audio_device\<close>, closes the
  device afterwards and sets the event a second time. And the coroutine that the first set
  wakes returns while its thread is still in the loop.
\<close>
theorem shutdown_signals_before_device_is_closed:
  "map_option teardown
     (run cfg0 ([Listen] @ enter 0 @ [Terminate, Work 0 NoInput] @ leave 0) async_setup)
   = Some [EventSet Shutdown, AdExit 0, EventSet (Worker 0)]
   \<and> map_option (control_points 0)
     (run cfg0 ([Listen] @ enter 0 @ [Terminate, Wait 0, Resume 0]) async_setup)
   = Some (C_Done, W_LoopTop)"
  by (simp add: exec_defs sched_defs cfg0_def teardown_def control_points_def)

text \<open>
  C6 as the code has it: the thread of a session sets the event at most once, exactly once
  when it has returned, and only after it has left \<open>with audio_device\<close>, which it does once;
  and the coroutine of the session publishes only when the thread has ended. A set of the event
  by \<open>async_terminate\<close> is not ordered with the closing of the device.
\<close>
theorem worker_signals_once_after_closing:
  assumes "run cfg ls async_setup = Some s" and "i < length (sessions s)"
  shows "count_list (trace s) (EventSet (Worker i))
           = (if w_pc (sessions s ! i) = W_Done then 1 else 0)
       \<and> count_list (trace s) (AdExit i)
           = (if w_pc (sessions s ! i) = W_SetEvent \<or> w_pc (sessions s ! i) = W_Done then 1 else 0)
       \<and> precedes (AdExit i) (EventSet (Worker i)) (trace s)
       \<and> (publications i s \<noteq> [] \<longrightarrow>
            w_pc (sessions s ! i) = W_Done \<or> w_pc (sessions s ! i) = W_Raised)"
proof -
  from inv_signal_run [OF assms(1)] have "signal_ok i (sess s i) (trace s)"
    by (simp add: inv_signal_def)
  moreover from inv_pub_run [OF assms(1)]
  have "publications i s \<noteq> [] \<longrightarrow> w_pc (sess s i) = W_Done \<or> w_pc (sess s i) = W_Raised"
    by (simp add: inv_pub_def)
  ultimately show ?thesis using assms(2) by (simp add: signal_ok_def sess_def)
qed

theorem worker_signals_once_after_closing_witness:
  "run cfg0 ([Listen] @ enter 0 @ frame 0 4 [1, 2, 3, 4] (Some ''wakeword'') @ reset 0 @ leave 0 @ await 0)
       async_setup
     = Some (reached ([Listen] @ enter 0 @ frame 0 4 [1, 2, 3, 4] (Some ''wakeword'') @ reset 0
                      @ leave 0 @ await 0))
   \<and> 0 < length (sessions (reached ([Listen] @ enter 0 @ frame 0 4 [1, 2, 3, 4] (Some ''wakeword'')
                      @ reset 0 @ leave 0 @ await 0)))
   \<and> w_pc (sessions (reached ([Listen] @ enter 0 @ frame 0 4 [1, 2, 3, 4] (Some ''wakeword'')
                      @ reset 0 @ leave 0 @ await 0)) ! 0) = W_Done
   \<and> publications 0 (reached ([Listen] @ enter 0 @ frame 0 4 [1, 2, 3, 4] (Some ''wakeword'')
                      @ reset 0 @ leave 0 @ await 0)) \<noteq> []
   \<and> count_list (trace (reached ([Listen] @ enter 0 @ frame 0 4 [1, 2, 3, 4] (Some ''wakeword'')
                      @ reset 0 @ leave 0 @ await 0))) (EventSet (Worker 0)) = 1
   \<and> count_list (trace (reached ([Listen] @ enter 0 @ frame 0 4 [1, 2, 3, 4] (Some ''wakeword'')
                      @ reset 0 @ leave 0 @ await 0))) (AdExit 0) = 1
   \<and> precedes (AdExit 0) (EventSet (Worker 0))
        (trace (reached ([Listen] @ enter 0 @ frame 0 4 [1, 2, 3, 4] (Some ''wakeword'')
                      @ reset 0 @ leave 0 @ await 0)))"
proof -
  let ?s = "reached ([Listen] @ enter 0 @ frame 0 4 [1, 2, 3, 4] (Some ''wakeword'') @ reset 0
                      @ leave 0 @ await 0)"
  have r: "run cfg0 ([Listen] @ enter 0 @ frame 0 4 [1, 2, 3, 4] (Some ''wakeword'') @ reset 0
                      @ leave 0 @ await 0) async_setup = Some ?s"
    and i: "0 < length (sessions ?s)"
    and d: "w_pc (sessions ?s ! 0) = W_Done"
    and p: "publications 0 ?s \<noteq> []"
    by (simp_all add: reached_def exec_defs sched_defs cfg0_def publications_def)
  from worker_signals_once_after_closing [OF r i] d p r i show ?thesis by simp
qed

subsection \<open>C7: what the decoder is fed\<close>

text \<open>
  C7 as stated: in every iteration the decoder is fed exactly the bytes that the preceding
  \<open>readinto\<close> reported, not the whole buffer. The source discards the value of \<open>readinto\<close>
  after comparing it with zero and calls \<open>process_raw(buf, False, False)\<close> with the whole
  bytearray. With a buffer of four bytes and a read that reports two, the decoder receives four
  bytes.
\<close>
theorem short_read_feeds_whole_buffer:
  "map_option device_io
     (run cfg0 ([Listen] @ enter 0 @ [Work 0 NoInput, Work 0 (Frame 2 [1, 2]), Work 0 NoInput])
        async_setup)
   = Some [AdReadinto 0 2, ProcessRaw 0 [1, 2, 0, 0]]"
  by (simp add: exec_defs sched_defs cfg0_def device_io_def readinto_def eval_nat_numeral)

text \<open>
  C7 as the code has it: in every iteration of every session the decoder is fed the whole
  buffer, \<open>buffer_size\<close> bytes, whatever count \<open>readinto\<close> reported.
\<close>
theorem decoder_is_fed_the_whole_buffer:
  assumes "run cfg ls async_setup = Some s" and "ProcessRaw i b \<in> set (trace s)"
  shows "length b = nat (buffer_size cfg)"
proof -
  from inv_fed_run [OF assms(1)] have "list_all (fed_whole cfg) (trace s)"
    by (simp add: inv_fed_def)
  then have "\<forall>a\<in>set (trace s). fed_whole cfg a"
    by (simp add: list_all_iff)
  from bspec [OF this assms(2)] show ?thesis by simp
qed

theorem decoder_is_fed_the_whole_buffer_witness:
  "run cfg0 ([Listen] @ enter 0 @ frame 0 2 [1, 2] None) async_setup
     = Some (reached ([Listen] @ enter 0 @ frame 0 2 [1, 2] None))
   \<and> ProcessRaw 0 [1, 2, 0, 0] \<in> set (trace (reached ([Listen] @ enter 0 @ frame 0 2 [1, 2] None)))
   \<and> length [1, 2, 0, 0 :: byte] = nat (buffer_size cfg0)"
proof -
  have r: "run cfg0 ([Listen] @ enter 0 @ frame 0 2 [1, 2] None) async_setup
     = Some (reached ([Listen] @ enter 0 @ frame 0 2 [1, 2] None))"
    and m: "ProcessRaw 0 [1, 2, 0, 0] \<in> set (trace (reached ([Listen] @ enter 0 @ frame 0 2 [1, 2] None)))"
    by (simp_all add: reached_def exec_defs sched_defs cfg0_def readinto_def eval_nat_numeral)
  from decoder_is_fed_the_whole_buffer [OF r m] r m show ?thesis by blast
qed

subsection \<open>C8: repeated shutdown requests\<close>

text \<open>
  C8 as stated: a shutdown request never fails, also when repeated or made with no session
  active, and after it the termination flag stays true for the rest of the current session.
  The flag is reset by every call to listen, also while the session that was current at the
  shutdown is still in its loop.
\<close>
theorem listen_resets_flag_of_running_session:
  "map_option (flag_and_thread 0)
     (run cfg0 ([Listen] @ enter 0 @ [Terminate, Listen]) async_setup) = Some (False, True)"
  by (simp add: exec_defs sched_defs cfg0_def flag_and_thread_def listening_def)

text \<open>
  C8 as the code has it: \<open>async_terminate\<close> has no failing branch and runs whenever the event
  loop is free, whatever sessions exist; it sets the flag, leaves the published state and the
  threads as they are, and a repeated call changes nothing but the record of calls; after it the
  flag stays true along every run that contains no new call to listen.
\<close>
theorem shutdown_flag_holds_until_next_listen:
  "(\<not> loop_blocked s \<longrightarrow> step cfg Terminate s = Some (async_terminate s))
   \<and> terminated (async_terminate s)
   \<and> hass_states (async_terminate s) = hass_states s
   \<and> map w_pc (sessions (async_terminate s)) = map w_pc (sessions s)
   \<and> async_terminate (async_terminate s)
       = (async_terminate s)\<lparr>trace := trace (async_terminate s) @ [EventSet Shutdown]\<rparr>
   \<and> (Listen \<notin> set ls \<longrightarrow> run cfg ls (async_terminate s) = Some s' \<longrightarrow> terminated s')"
proof (intro conjI impI)
  show "async_terminate (async_terminate s)
       = (async_terminate s)\<lparr>trace := trace (async_terminate s) @ [EventSet Shutdown]\<rparr>"
    by (simp add: async_terminate_def event_set_def comp_def notify_idem)
next
  assume "Listen \<notin> set ls" "run cfg ls (async_terminate s) = Some s'"
  then show "terminated s'"
    by (auto intro: run_keeps_terminated)
qed (simp_all add: comp_def)

theorem shutdown_flag_holds_until_next_listen_witness:
  "\<not> loop_blocked async_setup
   \<and> step cfg0 Terminate async_setup = Some (async_terminate async_setup)
   \<and> Listen \<notin> set [Terminate, Terminate]
   \<and> run cfg0 [Terminate, Terminate] (async_terminate async_setup)
       = Some (async_terminate (async_terminate (async_terminate async_setup)))
   \<and> terminated (async_terminate (async_terminate (async_terminate async_setup)))"
proof -
  have b: "\<not> loop_blocked async_setup" and n: "Listen \<notin> set [Terminate, Terminate]"
    and r: "run cfg0 [Terminate, Terminate] (async_terminate async_setup)
       = Some (async_terminate (async_terminate (async_terminate async_setup)))"
    by (simp_all add: exec_defs)
  from shutdown_flag_holds_until_next_listen
         [of async_setup cfg0 "[Terminate, Terminate]"
             "async_terminate (async_terminate (async_terminate async_setup))"] b n r
  show ?thesis by simp
qed

subsection \<open>C9: what a call to listen resets\<close>



subsection \<open>C10: the status after setup and the attributes of every publication\<close>

text \<open>
  C10: when \<open>async_setup\<close> has returned and no listen request has been made, the decoder
  object has the state \<open>idle\<close> with the attributes friendly name \<open>Hotword\<close> and icon
  \<open>mdi:microphone\<close>; in every later state the object carries the same attributes, and every
  call of \<open>hass.states.async_set\<close> ever made names this object and passes these attributes.
\<close>
theorem status_attributes_fixed:
  "hass_states async_setup ''hotword_pocketsphinx.decoder'' =
     Some (''idle'', [(''friendly_name'', ''Hotword''), (''icon'', ''mdi:microphone'')])
   \<and> sessions async_setup = []
   \<and> (run cfg ls async_setup = Some s \<longrightarrow>
        (\<exists>v. hass_states s ''hotword_pocketsphinx.decoder'' =
               Some (v, [(''friendly_name'', ''Hotword''), (''icon'', ''mdi:microphone'')]))
        \<and> (\<forall>c e v a. StateSet c e v a \<in> set (trace s) \<longrightarrow>
              e = ''hotword_pocketsphinx.decoder''
              \<and> a = [(''friendly_name'', ''Hotword''), (''icon'', ''mdi:microphone'')]))"
proof (intro conjI impI allI)
  show "hass_states async_setup ''hotword_pocketsphinx.decoder'' =
     Some (''idle'', [(''friendly_name'', ''Hotword''), (''icon'', ''mdi:microphone'')])"
    by (simp add: async_setup_def OBJECT_DECODER_def DOMAIN_def STATE_IDLE_def state_attrs_def)
  show "sessions async_setup = []" by (simp add: async_setup_def)
next
  assume r: "run cfg ls async_setup = Some s"
  from inv_attrs_run [OF r]
  show "\<exists>v. hass_states s ''hotword_pocketsphinx.decoder'' =
               Some (v, [(''friendly_name'', ''Hotword''), (''icon'', ''mdi:microphone'')])"
    by (auto simp: inv_attrs_def OBJECT_DECODER_def DOMAIN_def state_attrs_def)
next
  fix c e v a
  assume r: "run cfg ls async_setup = Some s" and m: "StateSet c e v a \<in> set (trace s)"
  from inv_attrs_run [OF r] have "\<forall>x\<in>set (trace s). attrs_fixed x"
    by (simp add: inv_attrs_def list_all_iff)
  from bspec [OF this m]
  show "e = ''hotword_pocketsphinx.decoder''" "a = [(''friendly_name'', ''Hotword''), (''icon'', ''mdi:microphone'')]"
    by (simp_all add: OBJECT_DECODER_def DOMAIN_def state_attrs_def)
qed

theorem status_attributes_fixed_witness:
  "run cfg0 ([Listen] @ enter 0) async_setup = Some (reached ([Listen] @ enter 0))
   \<and> StateSet (Coroutine 0) ''hotword_pocketsphinx.decoder'' ''listening''
        [(''friendly_name'', ''Hotword''), (''icon'', ''mdi:microphone'')]
        \<in> set (trace (reached ([Listen] @ enter 0)))
   \<and> hass_states (reached ([Listen] @ enter 0)) ''hotword_pocketsphinx.decoder''
        = Some (''listening'', [(''friendly_name'', ''Hotword''), (''icon'', ''mdi:microphone'')])"
proof -
  have r: "run cfg0 ([Listen] @ enter 0) async_setup = Some (reached ([Listen] @ enter 0))"
    and m: "StateSet (Coroutine 0) ''hotword_pocketsphinx.decoder'' ''listening''
        [(''friendly_name'', ''Hotword''), (''icon'', ''mdi:microphone'')]
        \<in> set (trace (reached ([Listen] @ enter 0)))"
    and h: "hass_states (reached ([Listen] @ enter 0)) ''hotword_pocketsphinx.decoder''
        = Some (''listening'', [(''friendly_name'', ''Hotword''), (''icon'', ''mdi:microphone'')])"
    by (simp_all add: reached_def exec_defs sched_defs cfg0_def OBJECT_DECODER_def DOMAIN_def
          STATE_LISTENING_def STATE_IDLE_def state_attrs_def)
  from status_attributes_fixed [of cfg0 "[Listen] @ enter 0" "reached ([Listen] @ enter 0)"] r m h
  show ?thesis by blast
qed

end
